theory Spec2Isabelle
  imports
    Complex_Main
    "HOL-Library.Mapping"
    "HOL-Library.AList"
    "HOL-Library.AList_Mapping"
    "HOL-Library.Multiset"
    "HOL-Library.Sublist"
    "HOL-Library.Char_ord"
    "HOL-Library.List_Lexorder"
    "HOL-Library.Log_Nat"
begin

section \<open>Strings: the Python string operations used by word\_freqs.py\<close>

text \<open>
  Text is modelled as \<^typ>\<open>string\<close>, a list of 8-bit characters, read as a Python 2
  byte string in the C locale: the whitespace characters are tab, line feed, vertical
  tab, form feed, carriage return and space, only the letters A to Z change under
  \<open>lower()\<close>, and \<open>encode("UTF-8")\<close> leaves ASCII text as it is.
\<close>

definition whitespace :: string where
  "whitespace = [CHR 0x09, CHR 0x0A, CHR 0x0B, CHR 0x0C, CHR 0x0D, CHR 0x20]"

definition isspace :: "char \<Rightarrow> bool" where
  "isspace c = (c \<in> set whitespace)"

text \<open>\<open>string.punctuation\<close>: the 32 ASCII punctuation characters, in code order.\<close>

definition punctuation :: string where
  "punctuation =
     [CHR 0x21, CHR 0x22, CHR 0x23, CHR 0x24, CHR 0x25, CHR 0x26, CHR 0x27, CHR 0x28,
      CHR 0x29, CHR 0x2A, CHR 0x2B, CHR 0x2C, CHR 0x2D, CHR 0x2E, CHR 0x2F,
      CHR 0x3A, CHR 0x3B, CHR 0x3C, CHR 0x3D, CHR 0x3E, CHR 0x3F, CHR 0x40,
      CHR 0x5B, CHR 0x5C, CHR 0x5D, CHR 0x5E, CHR 0x5F, CHR 0x60,
      CHR 0x7B, CHR 0x7C, CHR 0x7D, CHR 0x7E]"

text \<open>\<open>PUNCTUATION = " " + string.punctuation + "\n"\<close>\<close>

definition PUNCTUATION :: string where
  "PUNCTUATION = [CHR 0x20] @ punctuation @ [CHR 0x0A]"

text \<open>
  \<open>s.split()\<close> with no argument: the maximal runs of non-whitespace characters, in
  order; no empty string is ever produced. \<open>cur\<close> is the run read so far.
\<close>

primrec splitw :: "string \<Rightarrow> string \<Rightarrow> string list" where
  "splitw cur [] = (if cur = [] then [] else [cur])"
| "splitw cur (c # cs) =
     (if isspace c then (if cur = [] then splitw [] cs else cur # splitw [] cs)
      else splitw (cur @ [c]) cs)"

definition split_ws :: "string \<Rightarrow> string list" where
  "split_ws s = splitw [] s"

text \<open>\<open>s.strip(chars)\<close>: drop the characters of \<open>chars\<close> from both ends.\<close>

definition strip :: "string \<Rightarrow> string \<Rightarrow> string" where
  "strip chars s =
     rev (dropWhile (\<lambda>c. c \<in> set chars) (rev (dropWhile (\<lambda>c. c \<in> set chars) s)))"

definition lower_char :: "char \<Rightarrow> char" where
  "lower_char c =
     (let n = (of_char c :: nat) in if 65 \<le> n \<and> n \<le> 90 then char_of (n + 32) else c)"

definition lower :: "string \<Rightarrow> string" where
  "lower s = map lower_char s"

text \<open>\<open>word.strip(PUNCTUATION).lower()\<close>, the normalisation of a token.\<close>

definition normalize_word :: "string \<Rightarrow> string" where
  "normalize_word word = lower (strip PUNCTUATION word)"

section \<open>Python floats\<close>

text \<open>
  A Python float is an IEEE 754 double. The finite doubles are modelled by their values,
  which are rationals, and an operation on floats by the exact operation followed by
  rounding to the nearest double, ties going to the even significand.

  \<open>round_half_even\<close> rounds a rational to the nearest integer, ties to even.
\<close>

definition round_half_even :: "rat \<Rightarrow> int" where
  "round_half_even s =
     (let f = \<lfloor>s\<rfloor>; r = s - of_int f
      in if r < 1 / 2 then f else if 1 / 2 < r then f + 1 else if even f then f else f + 1)"

text \<open>
  For a positive rational \<open>q\<close>, the exponent \<open>e\<close> with \<open>2^e \<le> q < 2^(e+1)\<close>
  (lemma \<open>float_exponent_bounds\<close>).
\<close>

definition float_exponent :: "rat \<Rightarrow> int" where
  "float_exponent q =
     (if 1 \<le> q then bitlen \<lfloor>q\<rfloor> - 1
      else (let b = bitlen \<lfloor>1 / q\<rfloor> in if q = 2 powi (1 - b) then 1 - b else - b))"

text \<open>
  The nearest double of a positive rational: its 53-bit significand is the rounded
  multiple of \<open>2^(e-52)\<close>. The exponent range is not bounded, so overflow to infinity
  and the loss of precision of subnormal numbers are not modelled; neither can occur in
  the quotient of two counts.
\<close>

definition round_positive :: "rat \<Rightarrow> rat" where
  "round_positive q =
     (let e = float_exponent q
      in of_int (round_half_even (q * 2 powi (52 - e))) * 2 powi (e - 52))"

definition round_double :: "rat \<Rightarrow> rat" where
  "round_double q =
     (if q = 0 then 0 else if q < 0 then - round_positive (- q) else round_positive q)"

text \<open>Rounding is monotone and idempotent; the lemmas below lead to these two facts.\<close>

lemma rhe_between:
  "of_int \<lfloor>s\<rfloor> \<le> s"
  "round_half_even s = \<lfloor>s\<rfloor> \<or> round_half_even s = \<lfloor>s\<rfloor> + 1"
  by (auto simp: round_half_even_def Let_def)

lemma rhe_of_int [simp]: "round_half_even (of_int n) = n"
  by (simp add: round_half_even_def)

lemma rhe_ge: "of_int n \<le> s \<Longrightarrow> n \<le> round_half_even s"
proof -
  assume "of_int n \<le> s"
  then have "n \<le> \<lfloor>s\<rfloor>" by (simp add: le_floor_iff)
  then show ?thesis using rhe_between(2) [of s] by auto
qed

lemma rhe_le: "s \<le> of_int n \<Longrightarrow> round_half_even s \<le> n"
proof (cases "s = of_int n")
  case True
  then show ?thesis by simp
next
  case False
  assume "s \<le> of_int n"
  with False have "s < of_int n" by simp
  then have "\<lfloor>s\<rfloor> < n" by (simp add: floor_less_iff)
  then show ?thesis using rhe_between(2) [of s] by auto
qed

lemma rhe_mono: "x \<le> y \<Longrightarrow> round_half_even x \<le> round_half_even y"
proof -
  assume xy: "x \<le> y"
  then have f: "\<lfloor>x\<rfloor> \<le> \<lfloor>y\<rfloor>" by (rule floor_mono)
  show ?thesis
  proof (cases "\<lfloor>x\<rfloor> = \<lfloor>y\<rfloor>")
    case True
    then have "x - of_int \<lfloor>x\<rfloor> \<le> y - of_int \<lfloor>y\<rfloor>" using xy by simp
    then show ?thesis using True by (auto simp: round_half_even_def Let_def)
  next
    case False
    with f have "\<lfloor>x\<rfloor> + 1 \<le> \<lfloor>y\<rfloor>" by simp
    moreover have "round_half_even x \<le> \<lfloor>x\<rfloor> + 1" using rhe_between(2) [of x] by auto
    moreover have "\<lfloor>y\<rfloor> \<le> round_half_even y" using rhe_between(2) [of y] by auto
    ultimately show ?thesis by linarith
  qed
qed


lemma float_exponent_bounds:
  assumes "0 < q"
  shows "2 powi float_exponent q \<le> q" and "q < 2 powi (float_exponent q + 1)"
proof -
  have both: "2 powi float_exponent q \<le> q \<and> q < 2 powi (float_exponent q + 1)"
  proof (cases "1 \<le> q")
    case True
    define k where "k = \<lfloor>q\<rfloor>"
    have k: "0 < k" using True by (simp add: k_def)
    have e: "float_exponent q = bitlen k - 1" using True by (simp add: float_exponent_def k_def)
    from bitlen_bounds [OF k] have lo: "2 ^ nat (bitlen k - 1) \<le> k" and hi: "k < 2 ^ nat (bitlen k)"
      by auto
    have b1: "1 \<le> bitlen k" using k bitlen_eq_zero_iff [of k] bitlen_nonneg [of k] by linarith
    have "(2::rat) powi (bitlen k - 1) = 2 ^ nat (bitlen k - 1)"
      using b1 by (simp add: power_int_def)
    also have "\<dots> = of_int (2 ^ nat (bitlen k - 1))" by simp
    also have "\<dots> \<le> of_int k" using lo by (simp only: of_int_le_iff)
    also have "\<dots> \<le> q" by (simp add: k_def)
    finally have l: "2 powi (bitlen k - 1) \<le> q" .
    have "k + 1 \<le> 2 ^ nat (bitlen k)" using hi by simp
    then have "(of_int (k + 1) :: rat) \<le> of_int (2 ^ nat (bitlen k))" by (simp only: of_int_le_iff)
    moreover have "q < of_int (k + 1)" using floor_correct [of q] by (simp add: k_def)
    ultimately have "q < of_int (2 ^ nat (bitlen k))" by linarith
    also have "\<dots> = 2 powi (bitlen k)" using b1 by (simp add: power_int_def)
    finally have "q < 2 powi (bitlen k - 1 + 1)" by simp
    with l e show ?thesis by simp
  next
    case False
    define r where "r = 1 / q"
    define k where "k = \<lfloor>r\<rfloor>"
    define b where "b = bitlen k"
    have r1: "1 < r" using False assms by (simp add: r_def)
    have k: "0 < k" using r1 by (simp add: k_def)
    from bitlen_bounds [OF k] have lo: "2 ^ nat (b - 1) \<le> k" and hi: "k < 2 ^ nat b"
      by (auto simp: b_def)
    have b1: "1 \<le> b" using k bitlen_eq_zero_iff [of k] bitlen_nonneg [of k] unfolding b_def by linarith
    have "(2::rat) ^ nat (b - 1) = of_int (2 ^ nat (b - 1))" by simp
    also have "\<dots> \<le> of_int k" using lo by (simp only: of_int_le_iff)
    also have "\<dots> \<le> r" by (simp add: k_def)
    finally have rl: "2 ^ nat (b - 1) \<le> r" .
    have "k + 1 \<le> 2 ^ nat b" using hi by simp
    then have "(of_int (k + 1) :: rat) \<le> of_int (2 ^ nat b)" by (simp only: of_int_le_iff)
    moreover have "r < of_int (k + 1)" using floor_correct [of r] by (simp add: k_def)
    ultimately have rh: "r < 2 ^ nat b" by simp
    have q: "q = 1 / r" using assms by (simp add: r_def)
    have qh: "q \<le> 2 powi (1 - b)"
    proof -
      have "1 / r \<le> 1 / 2 ^ nat (b - 1)"
        using rl r1 by (simp add: field_simps)
      also have "\<dots> = 2 powi (- (b - 1))"
        using b1 by (simp add: power_int_def field_simps)
      finally show ?thesis by (simp add: q)
    qed
    have ql: "2 powi (- b) < q"
    proof -
      have "1 / 2 ^ nat b < 1 / r"
        using rh r1 by (simp add: field_simps)
      moreover have "(2::rat) powi (- b) = 1 / 2 ^ nat b"
        using b1 by (simp add: power_int_def field_simps)
      ultimately show ?thesis by (simp add: q)
    qed
    show ?thesis
    proof (cases "q = 2 powi (1 - b)")
      case True
      then have e: "float_exponent q = 1 - b"
        using False by (simp add: float_exponent_def Let_def b_def k_def r_def)
      have "(2::rat) powi (1 - b) < 2 powi (1 - b + 1)"
        by (rule power_int_strict_increasing) auto
      with True e show ?thesis by simp
    next
      case ne: False
      then have e: "float_exponent q = - b"
        using False by (simp add: float_exponent_def Let_def b_def k_def r_def)
      have "q < 2 powi (1 - b)" using qh ne by simp
      then have "q < 2 powi (- b + 1)" by (simp add: add.commute)
      with ql e show ?thesis by simp
    qed
  qed
  from both show "2 powi float_exponent q \<le> q" and "q < 2 powi (float_exponent q + 1)"
    by simp_all
qed

lemma float_exponent_unique:
  assumes "0 < q" and "2 powi e \<le> q" and "q < 2 powi (e + 1)"
  shows "float_exponent q = e"
proof (rule ccontr)
  assume ne: "float_exponent q \<noteq> e"
  note b = float_exponent_bounds [OF assms(1)]
  show False
  proof (cases "float_exponent q < e")
    case True
    then have "(2::rat) powi (float_exponent q + 1) \<le> 2 powi e"
      by (intro power_int_increasing) auto
    with b(2) assms(2) show False by linarith
  next
    case False
    with ne have "e + 1 \<le> float_exponent q" by simp
    then have "(2::rat) powi (e + 1) \<le> 2 powi float_exponent q"
      by (intro power_int_increasing) auto
    with b(1) assms(3) show False by linarith
  qed
qed

lemma float_exponent_mono:
  assumes "0 < x" and "x \<le> y"
  shows "float_exponent x \<le> float_exponent y"
proof (rule ccontr)
  assume "\<not> float_exponent x \<le> float_exponent y"
  then have "float_exponent y + 1 \<le> float_exponent x" by simp
  then have "(2::rat) powi (float_exponent y + 1) \<le> 2 powi float_exponent x"
    by (intro power_int_increasing) auto
  moreover have "0 < y" using assms by simp
  ultimately show False
    using float_exponent_bounds(1) [OF assms(1)] float_exponent_bounds(2) [OF \<open>0 < y\<close>] assms(2)
    by linarith
qed

lemma scaled_bounds:
  assumes "0 < q"
  shows "2 ^ 52 \<le> q * 2 powi (52 - float_exponent q)"
    and "q * 2 powi (52 - float_exponent q) < 2 ^ 53"
proof -
  define e where "e = float_exponent q"
  have p: "(0::rat) < 2 powi (52 - e)" by simp
  have "(2::rat) powi e * 2 powi (52 - e) = 2 powi 52"
    by (simp flip: power_int_add)
  moreover have "2 powi e * 2 powi (52 - e) \<le> q * 2 powi (52 - e)"
    using float_exponent_bounds(1) [OF assms] p unfolding e_def
    by (intro mult_right_mono) auto
  ultimately show "2 ^ 52 \<le> q * 2 powi (52 - float_exponent q)"
    by (simp add: e_def)
  have "(2::rat) powi (e + 1) * 2 powi (52 - e) = 2 powi 53"
    by (simp flip: power_int_add)
  moreover have "q * 2 powi (52 - e) < 2 powi (e + 1) * 2 powi (52 - e)"
    using float_exponent_bounds(2) [OF assms] p unfolding e_def
    by (intro mult_strict_right_mono) auto
  ultimately show "q * 2 powi (52 - float_exponent q) < 2 ^ 53"
    by (simp add: e_def)
qed


lemma pow2_split: "(2::rat) powi a * 2 powi b = 2 powi (a + b)"
  by (simp add: power_int_add)

lemma mantissa_bounds:
  assumes "0 < q"
  shows "2 ^ 52 \<le> round_half_even (q * 2 powi (52 - float_exponent q))"
    and "round_half_even (q * 2 powi (52 - float_exponent q)) \<le> 2 ^ 53"
proof -
  have "(of_int (2 ^ 52) :: rat) \<le> q * 2 powi (52 - float_exponent q)"
    using scaled_bounds(1) [OF assms] by simp
  then show "2 ^ 52 \<le> round_half_even (q * 2 powi (52 - float_exponent q))"
    by (rule rhe_ge)
  have "q * 2 powi (52 - float_exponent q) \<le> (of_int (2 ^ 53) :: rat)"
    using scaled_bounds(2) [OF assms] by simp
  then show "round_half_even (q * 2 powi (52 - float_exponent q)) \<le> 2 ^ 53"
    by (rule rhe_le)
qed

lemma round_positive_bounds:
  assumes "0 < q"
  shows "2 powi float_exponent q \<le> round_positive q"
    and "round_positive q \<le> 2 powi (float_exponent q + 1)"
proof -
  define e where "e = float_exponent q"
  define m where "m = round_half_even (q * 2 powi (52 - e))"
  have rp: "round_positive q = of_int m * 2 powi (e - 52)"
    by (simp add: round_positive_def Let_def e_def m_def)
  have m: "2 ^ 52 \<le> m" "m \<le> 2 ^ 53"
    using mantissa_bounds [OF assms] by (simp_all add: m_def e_def)
  have p: "(0::rat) < 2 powi (e - 52)" by simp
  have "(2::rat) powi e = of_int (2 ^ 52) * 2 powi (e - 52)"
    using pow2_split [of 52 "e - 52"] by simp
  also have "\<dots> \<le> of_int m * 2 powi (e - 52)"
    using m(1) p by (intro mult_right_mono) (simp_all only: of_int_le_iff less_imp_le)
  finally show "2 powi float_exponent q \<le> round_positive q"
    by (simp add: rp e_def)
  have "of_int m * 2 powi (e - 52) \<le> (of_int (2 ^ 53) :: rat) * 2 powi (e - 52)"
    using m(2) p by (intro mult_right_mono) (simp_all only: of_int_le_iff less_imp_le)
  also have "\<dots> = 2 powi (e + 1)"
    using pow2_split [of 53 "e - 52"] by (simp add: add.commute)
  finally show "round_positive q \<le> 2 powi (float_exponent q + 1)"
    by (simp add: rp e_def)
qed

lemma round_positive_pos: "0 < q \<Longrightarrow> 0 < round_positive q"
proof -
  assume q: "0 < q"
  have "(0::rat) < 2 powi float_exponent q" by simp
  with round_positive_bounds(1) [OF q] show ?thesis by linarith
qed

lemma round_positive_mono:
  assumes "0 < x" and "x \<le> y"
  shows "round_positive x \<le> round_positive y"
proof -
  have y: "0 < y" using assms by simp
  have le: "float_exponent x \<le> float_exponent y"
    using assms by (rule float_exponent_mono)
  show ?thesis
  proof (cases "float_exponent x = float_exponent y")
    case True
    define e where "e = float_exponent y"
    have p: "(0::rat) < 2 powi (52 - e)" "(0::rat) < 2 powi (e - 52)" by simp_all
    have "x * 2 powi (52 - e) \<le> y * 2 powi (52 - e)"
      using assms(2) p(1) by (intro mult_right_mono) simp_all
    then have "round_half_even (x * 2 powi (52 - e)) \<le> round_half_even (y * 2 powi (52 - e))"
      by (rule rhe_mono)
    then have "(of_int (round_half_even (x * 2 powi (52 - e))) :: rat)
        \<le> of_int (round_half_even (y * 2 powi (52 - e)))"
      by (simp only: of_int_le_iff)
    then have "of_int (round_half_even (x * 2 powi (52 - e))) * 2 powi (e - 52)
        \<le> (of_int (round_half_even (y * 2 powi (52 - e))) :: rat) * 2 powi (e - 52)"
      using p(2) by (intro mult_right_mono) simp_all
    then show ?thesis
      using True by (simp add: round_positive_def Let_def e_def)
  next
    case False
    with le have "float_exponent x + 1 \<le> float_exponent y" by simp
    then have "(2::rat) powi (float_exponent x + 1) \<le> 2 powi float_exponent y"
      by (intro power_int_increasing) auto
    with round_positive_bounds(2) [OF assms(1)] round_positive_bounds(1) [OF y]
    show ?thesis by linarith
  qed
qed

lemma round_positive_idem:
  assumes "0 < q"
  shows "round_positive (round_positive q) = round_positive q"
proof -
  define e where "e = float_exponent q"
  define m where "m = round_half_even (q * 2 powi (52 - e))"
  define r where "r = round_positive q"
  have rp: "r = of_int m * 2 powi (e - 52)"
    by (simp add: r_def round_positive_def Let_def e_def m_def)
  have m: "2 ^ 52 \<le> m" "m \<le> 2 ^ 53"
    using mantissa_bounds [OF assms] by (simp_all add: m_def e_def)
  have r: "0 < r" unfolding r_def using assms by (rule round_positive_pos)
  have lo: "2 powi e \<le> r"
    using round_positive_bounds(1) [OF assms] by (simp add: r_def e_def)
  show ?thesis
  proof (cases "m = 2 ^ 53")
    case True
    have r2: "r = 2 powi (e + 1)"
      using pow2_split [of 53 "e - 52"] by (simp add: rp True add.commute)
    have "(2::rat) powi (e + 1) < 2 powi (e + 1 + 1)"
      by (rule power_int_strict_increasing) auto
    then have ex: "float_exponent r = e + 1"
      using r r2 by (intro float_exponent_unique) simp_all
    have "r * 2 powi (52 - (e + 1)) = 2 powi (e + 1) * 2 powi (52 - (e + 1))"
      by (simp add: r2)
    also have "\<dots> = of_int (2 ^ 52)"
      using pow2_split [of "e + 1" "52 - (e + 1)"] by simp
    finally have sc: "r * 2 powi (52 - (e + 1)) = of_int (2 ^ 52)" .
    have "round_positive r = of_int (2 ^ 52) * 2 powi (e + 1 - 52)"
      unfolding round_positive_def Let_def ex sc rhe_of_int ..
    also have "\<dots> = 2 powi (e + 1)"
      using pow2_split [of 52 "e + 1 - 52"] by (simp add: add.commute)
    finally have "round_positive r = r" by (simp only: r2)
    then show ?thesis unfolding r_def .
  next
    case False
    with m(2) have "m + 1 \<le> 2 ^ 53" by simp
    then have "(of_int (m + 1) :: rat) \<le> of_int (2 ^ 53)" by (simp only: of_int_le_iff)
    then have "(of_int m :: rat) < 2 powi 53" by simp
    then have "of_int m * 2 powi (e - 52) < (2 powi 53 :: rat) * 2 powi (e - 52)"
      by (intro mult_strict_right_mono) simp_all
    also have "\<dots> = 2 powi (e + 1)"
      using pow2_split [of 53 "e - 52"] by (simp add: add.commute)
    finally have hi: "r < 2 powi (e + 1)" by (simp add: rp)
    have ex: "float_exponent r = e"
      using r lo hi by (rule float_exponent_unique)
    have "r * 2 powi (52 - e) = of_int m * (2 powi (e - 52) * 2 powi (52 - e))"
      by (simp add: rp)
    also have "2 powi (e - 52) * 2 powi (52 - e) = (1::rat)"
      using pow2_split [of "e - 52" "52 - e"] by simp
    finally have sc: "r * 2 powi (52 - e) = of_int m" by simp
    have "round_positive r = of_int m * 2 powi (e - 52)"
      unfolding round_positive_def Let_def ex sc rhe_of_int ..
    then have "round_positive r = r" by (simp only: rp)
    then show ?thesis unfolding r_def .
  qed
qed

lemma round_double_mono: "x \<le> y \<Longrightarrow> round_double x \<le> round_double y"
proof -
  assume xy: "x \<le> y"
  consider "0 < x" | "x \<le> 0" "0 < y" | "x = 0" "y = 0" | "x < 0" "y = 0" | "x < 0" "y < 0"
    using xy by linarith
  then show ?thesis
  proof cases
    case 1
    then show ?thesis using xy round_positive_mono [of x y] by (simp add: round_double_def)
  next
    case 2
    have "round_double x \<le> 0"
      using 2(1) round_positive_pos [of "- x"]
      by (auto simp: round_double_def intro: less_imp_le)
    moreover have "0 \<le> round_double y"
      using 2 round_positive_pos [of y] by (auto simp: round_double_def intro: less_imp_le)
    ultimately show ?thesis by linarith
  next
    case 3
    then show ?thesis by simp
  next
    case 4
    then show ?thesis
      using round_positive_pos [of "- x"] by (auto simp: round_double_def intro: less_imp_le)
  next
    case 5
    then show ?thesis
      using xy round_positive_mono [of "- y" "- x"] by (simp add: round_double_def)
  qed
qed

lemma round_double_idem: "round_double (round_double q) = round_double q"
proof -
  consider "q = 0" | "0 < q" | "q < 0" by linarith
  then show ?thesis
  proof cases
    case 1
    then show ?thesis by (simp add: round_double_def)
  next
    case 2
    then show ?thesis
      using round_positive_pos [of q] round_positive_idem [of q] by (simp add: round_double_def)
  next
    case 3
    then show ?thesis
      using round_positive_pos [of "- q"] round_positive_idem [of "- q"]
      by (simp add: round_double_def)
  qed
qed

text \<open>
  The finite doubles: the rationals that rounding leaves as they are (every finite IEEE
  double is one, the subnormal ones included). \<open>to_double\<close> is the conversion
  \<open>float(x)\<close> of a decimal numeral, as \<open>optparse\<close> applies it to the argument of
  \<open>-m\<close>. The infinities and NaN are not values of this type.
\<close>

typedef double = "{q :: rat. round_double q = q}"
  morphisms rat_of_double Abs_double
proof
  show "0 \<in> {q :: rat. round_double q = q}" by (simp add: round_double_def)
qed

setup_lifting type_definition_double

lift_definition to_double :: "rat \<Rightarrow> double" is round_double
  by (rule round_double_idem)

text \<open>A rational at most a double stays at most that double when it is rounded.\<close>

lemma double_le: "q \<le> rat_of_double d \<Longrightarrow> round_double q \<le> rat_of_double d"
proof -
  assume "q \<le> rat_of_double d"
  then have "round_double q \<le> round_double (rat_of_double d)" by (rule round_double_mono)
  moreover have "round_double (rat_of_double d) = rat_of_double d"
    using rat_of_double [of d] by simp
  ultimately show ?thesis by simp
qed

lemma round_double_one: "round_double 1 = 1"
  by code_simp

section \<open>The accumulator and the options\<close>

text \<open>
  \<open>popular_words\<close> is a \<open>defaultdict(int)\<close>: a finite mapping from words to Python
  integers in which reading a missing key gives 0. The module-level dictionary is passed
  explicitly and returned updated.
\<close>

type_synonym word_counts = "(string, int) mapping"

definition count_of :: "word_counts \<Rightarrow> string \<Rightarrow> int" where
  "count_of pw word = Mapping.lookup_default 0 pw word"

text \<open>\<open>popular_words[word] += n\<close>\<close>

definition add_count :: "word_counts \<Rightarrow> string \<Rightarrow> int \<Rightarrow> word_counts" where
  "add_count pw word n = Mapping.update word (count_of pw word + n) pw"

text \<open>
  The option bag built by \<open>parse_cmd_line\<close>. \<open>max_threshold\<close> is parsed with
  \<open>type="float"\<close>, so it holds a double.
\<close>

record options =
  period :: string
  limit :: "nat option"
  max_threshold :: double
  count_word_freqs :: bool
  is_subreddit :: bool

text \<open>
  The defaults \<open>parse_cmd_line\<close> gives the options (period \<open>month\<close>, no limit,
  threshold 0.34, counting every occurrence), for a subreddit target.
\<close>

definition default_options :: options where
  "default_options =
     \<lparr>period = ''month'', limit = None, max_threshold = to_double (34 / 100),
      count_word_freqs = True, is_subreddit = True\<rparr>"

text \<open>
  The exceptions of the model: the division by zero that \<open>count / total\<close> could raise,
  and \<open>requests.exceptions.HTTPError\<close> with the status code of its response.
\<close>

datatype error = ZeroDivisionError | HTTPError nat

section \<open>parse\_text\<close>

text \<open>
  The local table \<open>text_words\<close> is a \<open>defaultdict(int)\<close> too; it is kept as an
  association list with distinct keys, in order of first insertion.
  \<open>text_words[word] += 1\<close>:
\<close>

definition incr :: "(string \<times> nat) list \<Rightarrow> string \<Rightarrow> (string \<times> nat) list" where
  "incr text_words word =
     AList.update word ((case map_of text_words word of None \<Rightarrow> 0 | Some n \<Rightarrow> n) + 1)
       text_words"

text \<open>
  The first loop of \<open>parse_text\<close>, over \<open>text.split()\<close>. The state is the pair
  \<open>(total, text_words)\<close>; \<open>total\<close> is a float in the source that only ever holds a
  count, so a natural number here (written \<open>total'\<close>, and \<open>count'\<close> below, the plain names being taken).
\<close>

fun count_tokens ::
  "string set \<Rightarrow> string list \<Rightarrow> nat \<times> (string \<times> nat) list \<Rightarrow> nat \<times> (string \<times> nat) list"
where
  "count_tokens common_words [] st = st"
| "count_tokens common_words (tok # toks) (total', text_words) =
     (let word = normalize_word tok
      in count_tokens common_words toks
           (total' + 1,
            if word \<noteq> [] \<and> word \<notin> common_words then incr text_words word
            else text_words))"

text \<open>
  \<open>count / total\<close>, the division of an integer by a float: the integer is converted to
  a float and the quotient is the nearest double of the exact quotient. Both conversions
  of the counts are exact below \<open>2^53\<close>, more tokens than a block can hold.
\<close>

definition float_div :: "nat \<Rightarrow> nat \<Rightarrow> rat" where
  "float_div count' total' = round_double (of_nat count' / of_nat total')"

text \<open>
  The second loop, over \<open>text_words.items()\<close>. The division \<open>count / total\<close> raises
  \<open>ZeroDivisionError\<close> when \<open>total\<close> is zero.
\<close>

fun add_words ::
  "options \<Rightarrow> nat \<Rightarrow> (string \<times> nat) list \<Rightarrow> word_counts \<Rightarrow> error + word_counts"
where
  "add_words opts total' [] pw = Inr pw"
| "add_words opts total' ((word, count') # items) pw =
     (if total' = 0 then Inl ZeroDivisionError
      else if float_div count' total' \<le> rat_of_double (max_threshold opts) then
        (if count_word_freqs opts
         then add_words opts total' items (add_count pw word (int count'))
         else add_words opts total' items (add_count pw word 1))
      else add_words opts total' items pw)"

definition parse_text ::
  "string set \<Rightarrow> options \<Rightarrow> string \<Rightarrow> word_counts \<Rightarrow> error + word_counts"
where
  "parse_text common_words opts text pw =
     (case count_tokens common_words (split_ws text) (0, []) of
        (total', text_words) \<Rightarrow> add_words opts total' text_words pw)"

text \<open>Sequencing of calls that may raise.\<close>

fun and_then :: "error + 'a \<Rightarrow> ('a \<Rightarrow> error + 'b) \<Rightarrow> error + 'b" where
  "and_then (Inl e) f = Inl e"
| "and_then (Inr x) f = f x"

text \<open>Ingesting a sequence of text blocks, one \<open>parse_text\<close> call each, in order.\<close>

fun ingest ::
  "string set \<Rightarrow> options \<Rightarrow> string list \<Rightarrow> word_counts \<Rightarrow> error + word_counts"
where
  "ingest common_words opts [] pw = Inr pw"
| "ingest common_words opts (text # texts) pw =
     and_then (parse_text common_words opts text pw) (ingest common_words opts texts)"

section \<open>Traversal of a subreddit\<close>

text \<open>
  A submission as \<open>process_submission\<close> reads it. The only network requests of
  \<open>process_submission\<close> are those of \<open>submission.replace_more_comments()\<close> and of the
  \<open>comments\<close> attribute, both before the first call of \<open>parse_text\<close>; the field
  \<open>comments\<close> holds their outcome: the bodies of the flattened comment tree, in order,
  or the status code of the \<open>HTTPError\<close> they raised.
\<close>

record submission =
  url :: string
  title :: string
  is_self :: bool
  selftext :: string
  comments :: "nat + string list"

definition process_submission ::
  "string set \<Rightarrow> options \<Rightarrow> submission \<Rightarrow> bool \<Rightarrow> word_counts \<Rightarrow> error + word_counts"
where
  "process_submission common_words opts submission include_comments pw =
     and_then
       (if include_comments then
          (case comments submission of
             Inl status \<Rightarrow> Inl (HTTPError status)
           | Inr bodies \<Rightarrow> ingest common_words opts bodies pw)
        else Inr pw)
       (\<lambda>pw. and_then (parse_text common_words opts (title submission) pw)
          (\<lambda>pw. if is_self submission
                then parse_text common_words opts (selftext submission) pw
                else Inr pw))"

text \<open>\<open>str(n)\<close> for a non-negative integer: its decimal digits.\<close>

fun str_nat :: "nat \<Rightarrow> string" where
  "str_nat n =
     (if n < 10 then [char_of (48 + n)]
      else str_nat (n div 10) @ [char_of (48 + n mod 10)])"

declare str_nat.simps [simp del]

text \<open>The diagnostic written when a submission is skipped.\<close>

definition skip_message :: "string \<Rightarrow> nat \<Rightarrow> string" where
  "skip_message submission_url status_code =
     [CHR 0x0A] @ ''Skipping submission '' @ submission_url @ '' due to HTTP status '' @
     str_nat status_code @ '' error. Continuing...'' @ [CHR 0x0A]"

text \<open>
  \<open>process_subreddit\<close>, over the submissions that \<open>get_top\<close> yields. The state is the
  accumulator and the standard error stream, kept as the list of the strings written to
  it. \<open>with_status\<close> writes a dot for the item of index \<open>i\<close>, and a line feed after
  every hundredth, before the loop body runs on the item. An \<open>HTTPError\<close> is caught, a
  diagnostic is written and the loop goes on; any other exception ends the run.
\<close>

fun process_subreddit_from ::
  "string set \<Rightarrow> options \<Rightarrow> nat \<Rightarrow> submission list \<Rightarrow> word_counts \<times> string list \<Rightarrow>
     error + word_counts \<times> string list"
where
  "process_subreddit_from common_words opts i [] st = Inr st"
| "process_subreddit_from common_words opts i (submission # rest) (pw, stderr) =
     (let stderr1 = stderr @ [''.''];
          stderr2 = (if i mod 100 = 99 then stderr1 @ [[CHR 0x0A]] else stderr1)
      in case process_submission common_words opts submission True pw of
           Inr pw' \<Rightarrow> process_subreddit_from common_words opts (i + 1) rest (pw', stderr2)
         | Inl (HTTPError status) \<Rightarrow>
             process_subreddit_from common_words opts (i + 1) rest
               (pw, stderr2 @ [skip_message (url submission) status])
         | Inl ZeroDivisionError \<Rightarrow> Inl ZeroDivisionError)"

definition process_subreddit ::
  "string set \<Rightarrow> options \<Rightarrow> submission list \<Rightarrow> word_counts \<times> string list \<Rightarrow>
     error + word_counts \<times> string list"
where
  "process_subreddit common_words opts submissions st =
     process_subreddit_from common_words opts 0 submissions st"

section \<open>The output pass of main\<close>

definition EXCLUDED_WORDS :: "string list" where
  "EXCLUDED_WORDS = [''/'', ''--'', ''...'', ''deleted'', '')x'']"

text \<open>\<open>ew in word\<close>: \<open>ew\<close> occurs in \<open>word\<close> as a contiguous substring.\<close>

fun substring_in :: "string \<Rightarrow> string \<Rightarrow> bool" where
  "substring_in ew [] = (ew = [])"
| "substring_in ew (c # cs) = (prefix ew (c # cs) \<or> substring_in ew cs)"

text \<open>
  The loop over \<open>EXCLUDED_WORDS\<close>, which clears \<open>pri\<close> and breaks at the first
  excluded phrase found in the word.
\<close>

fun excluded_loop :: "string list \<Rightarrow> string \<Rightarrow> bool \<Rightarrow> bool" where
  "excluded_loop [] word pri = pri"
| "excluded_loop (ew # ews) word pri =
     (if substring_in ew word then False else excluded_loop ews word pri)"

text \<open>
  Whether \<open>int(word)\<close> returns rather than raises: after the surrounding whitespace and
  one optional sign, the string is a non-empty run of decimal digits.
\<close>

definition isdigit :: "char \<Rightarrow> bool" where
  "isdigit c = (let n = (of_char c :: nat) in 48 \<le> n \<and> n \<le> 57)"

definition int_parses :: "string \<Rightarrow> bool" where
  "int_parses word =
     (let s = strip whitespace word;
          ds = (case s of
                  [] \<Rightarrow> []
                | c # cs \<Rightarrow> if c = CHR ''+'' \<or> c = CHR ''-'' then cs else s)
      in ds \<noteq> [] \<and> list_all isdigit ds)"

text \<open>
  The body of the loop over the sorted keys, for one word: the text it appends to
  \<open>output\<close> and writes to the file, empty when the word is not printed.
\<close>

definition render_word :: "word_counts \<Rightarrow> string \<Rightarrow> string" where
  "render_word pw word =
     (if 2 < count_of pw word then
        (let pri = excluded_loop EXCLUDED_WORDS word True;
             pri = (if int_parses word then False else pri)
         in if pri
            then strip '' '' (concat (replicate (nat (count_of pw word)) (word @ '' ''))) @ '' ''
            else [])
      else [])"

definition render :: "word_counts \<Rightarrow> string" where
  "render pw = concat (map (render_word pw) (Mapping.ordered_keys pw))"

section \<open>Vocabulary of the statements\<close>

text \<open>
  The definitions of this section are not functions of the source: they name what the
  lemmas and the claims speak of. First the count held for a word in the local table (0
  when absent), the normalised tokens of a block, and the number of times a word occurs
  among them.
\<close>

definition tw_count :: "(string \<times> nat) list \<Rightarrow> string \<Rightarrow> nat" where
  "tw_count text_words w = (case map_of text_words w of None \<Rightarrow> 0 | Some n \<Rightarrow> n)"

definition normalized_tokens :: "string \<Rightarrow> string list" where
  "normalized_tokens text = map normalize_word (split_ws text)"

definition local_count :: "string \<Rightarrow> string \<Rightarrow> nat" where
  "local_count text w = count_list (normalized_tokens text) w"

text \<open>
  A word is accepted from a block when it is a non-empty, non-common normalised token of
  the block whose float quotient \<open>count / total\<close> is at most the threshold; an accepted
  word adds \<open>increment\<close> to its entry.
\<close>

definition accepted :: "string set \<Rightarrow> options \<Rightarrow> string \<Rightarrow> string \<Rightarrow> bool" where
  "accepted cw opts text w =
     (w \<noteq> [] \<and> w \<notin> cw \<and> w \<in> set (normalized_tokens text) \<and>
      float_div (local_count text w) (length (split_ws text)) \<le>
        rat_of_double (max_threshold opts))"

definition increment :: "options \<Rightarrow> string \<Rightarrow> string \<Rightarrow> int" where
  "increment opts text w = (if count_word_freqs opts then int (local_count text w) else 1)"

text \<open>
  The accumulator after one call of \<open>parse_text\<close>, as a total function; the call
  always returns (lemma \<open>parse_text_ingest1\<close>), so the error branch is never taken.
\<close>

definition ingest1 :: "string set \<Rightarrow> options \<Rightarrow> string \<Rightarrow> word_counts \<Rightarrow> word_counts" where
  "ingest1 cw opts text pw = (case parse_text cw opts text pw of Inr pw' \<Rightarrow> pw' | Inl e \<Rightarrow> pw)"

text \<open>
  The text blocks that a submission processed with its comments hands to \<open>parse_text\<close>,
  in order, and whether fetching its comments fails.
\<close>

definition submission_texts :: "submission \<Rightarrow> string list" where
  "submission_texts s =
     (case comments s of Inl status \<Rightarrow> [] | Inr bodies \<Rightarrow> bodies) @ [title s] @
     (if is_self s then [selftext s] else [])"

definition fetch_fails :: "submission \<Rightarrow> bool" where
  "fetch_fails s = (case comments s of Inl status \<Rightarrow> True | Inr bodies \<Rightarrow> False)"

text \<open>The number that a string of decimal digits denotes.\<close>

definition decimal_value :: "string \<Rightarrow> nat" where
  "decimal_value ds = foldl (\<lambda>a c. 10 * a + (of_char c - 48)) 0 ds"

section \<open>What one call of parse\_text does to the accumulator\<close>

lemma map_of_incr: "map_of (incr tw w) = (map_of tw)(w \<mapsto> tw_count tw w + 1)"
  by (simp add: incr_def tw_count_def update_conv')

lemma distinct_incr: "distinct (map fst tw) \<Longrightarrow> distinct (map fst (incr tw w))"
  by (simp add: incr_def distinct_update)

lemma tw_count_incr: "tw_count (incr tw w) v = (if v = w then tw_count tw w + 1 else tw_count tw v)"
  by (simp add: tw_count_def map_of_incr)

lemma keys_incr: "fst ` set (incr tw w) = insert w (fst ` set tw)"
  by (simp add: incr_def AList.dom_update)

lemma count_tokens_total:
  "fst (count_tokens cw toks (t0, tw0)) = t0 + length toks"
  by (induction toks arbitrary: t0 tw0) (simp_all add: Let_def)

lemma count_tokens_distinct:
  "distinct (map fst tw0) \<Longrightarrow> distinct (map fst (snd (count_tokens cw toks (t0, tw0))))"
  by (induction toks arbitrary: t0 tw0) (simp_all add: Let_def distinct_incr)

lemma count_tokens_count:
  "tw_count (snd (count_tokens cw toks (t0, tw0))) w =
     tw_count tw0 w + (if w \<noteq> [] \<and> w \<notin> cw then count_list (map normalize_word toks) w else 0)"
  by (induction toks arbitrary: t0 tw0) (simp_all add: Let_def tw_count_incr)

lemma count_tokens_keys:
  "fst ` set (snd (count_tokens cw toks (t0, tw0))) =
     fst ` set tw0 \<union> {w \<in> normalize_word ` set toks. w \<noteq> [] \<and> w \<notin> cw}"
  by (induction toks arbitrary: t0 tw0) (auto simp add: Let_def keys_incr)

lemma count_tokens_map_of:
  assumes "count_tokens cw toks (0, []) = (t, tw)"
  shows "map_of tw w =
     (if w \<noteq> [] \<and> w \<notin> cw \<and> w \<in> normalize_word ` set toks
      then Some (count_list (map normalize_word toks) w) else None)"
proof -
  have tw: "tw = snd (count_tokens cw toks (0, []))"
    using assms by simp
  have c: "tw_count tw w = (if w \<noteq> [] \<and> w \<notin> cw then count_list (map normalize_word toks) w else 0)"
    unfolding tw using count_tokens_count [of cw toks 0 "[]" w] by (simp add: tw_count_def)
  have k: "fst ` set tw = {w \<in> normalize_word ` set toks. w \<noteq> [] \<and> w \<notin> cw}"
    unfolding tw using count_tokens_keys [of cw toks 0 "[]"] by simp
  show ?thesis
  proof (cases "map_of tw w")
    case None
    then have "w \<notin> fst ` set tw" by (simp add: map_of_eq_None_iff)
    with k None show ?thesis by auto
  next
    case (Some n)
    then have "w \<in> fst ` set tw" by (metis map_of_eq_None_iff option.distinct(1))
    moreover from Some c have "n = (if w \<noteq> [] \<and> w \<notin> cw then count_list (map normalize_word toks) w else 0)"
      by (simp add: tw_count_def)
    ultimately show ?thesis using k Some by auto
  qed
qed

lemma count_of_add_count:
  "count_of (add_count pw w n) v = (if v = w then count_of pw w + n else count_of pw v)"
  by (simp add: add_count_def count_of_def lookup_default_update')

lemma lookup_add_count:
  "Mapping.lookup (add_count pw w n) v = (if v = w then Some (count_of pw w + n) else Mapping.lookup pw v)"
  by (simp add: add_count_def lookup_update')

lemma add_words_lookup:
  assumes "0 < t" and "distinct (map fst items)"
  shows "\<exists>pw'. add_words opts t items pw = Inr pw' \<and>
           (\<forall>w. Mapping.lookup pw' w =
              (case map_of items w of
                 None \<Rightarrow> Mapping.lookup pw w
               | Some c \<Rightarrow>
                   if float_div c t \<le> rat_of_double (max_threshold opts)
                   then Some (count_of pw w + (if count_word_freqs opts then int c else 1))
                   else Mapping.lookup pw w))"
  using assms
proof (induction items arbitrary: pw)
  case Nil
  then show ?case by simp
next
  case (Cons item items)
  obtain word c where item: "item = (word, c)" by (cases item)
  from Cons.prems have d: "distinct (map fst items)" and nin: "word \<notin> fst ` set items"
    by (auto simp: item)
  then have none: "map_of items word = None" by (simp add: map_of_eq_None_iff)
  show ?case
  proof (cases "float_div c t \<le> rat_of_double (max_threshold opts)")
    case False
    from Cons.IH [OF Cons.prems(1) d, of pw] obtain pw' where
      "add_words opts t items pw = Inr pw'" and
      "\<forall>w. Mapping.lookup pw' w =
              (case map_of items w of
                 None \<Rightarrow> Mapping.lookup pw w
               | Some c \<Rightarrow>
                   if float_div c t \<le> rat_of_double (max_threshold opts)
                   then Some (count_of pw w + (if count_word_freqs opts then int c else 1))
                   else Mapping.lookup pw w)" by blast
    with False Cons.prems(1) none show ?thesis
      by (auto simp: item)
  next
    case True
    define n where "n = (if count_word_freqs opts then int c else 1)"
    from Cons.IH [OF Cons.prems(1) d, of "add_count pw word n"] obtain pw' where
      r: "add_words opts t items (add_count pw word n) = Inr pw'" and
      l: "\<forall>w. Mapping.lookup pw' w =
              (case map_of items w of
                 None \<Rightarrow> Mapping.lookup (add_count pw word n) w
               | Some c \<Rightarrow>
                   if float_div c t \<le> rat_of_double (max_threshold opts)
                   then Some (count_of (add_count pw word n) w + (if count_word_freqs opts then int c else 1))
                   else Mapping.lookup (add_count pw word n) w)" by blast
    have "add_words opts t (item # items) pw = Inr pw'"
      using True Cons.prems(1) r by (auto simp: item n_def)
    moreover have "Mapping.lookup pw' w =
              (case map_of (item # items) w of
                 None \<Rightarrow> Mapping.lookup pw w
               | Some c \<Rightarrow>
                   if float_div c t \<le> rat_of_double (max_threshold opts)
                   then Some (count_of pw w + (if count_word_freqs opts then int c else 1))
                   else Mapping.lookup pw w)" for w
    proof (cases "w = word")
      case True
      with l none \<open>float_div c t \<le> rat_of_double (max_threshold opts)\<close> show ?thesis
        by (simp add: item lookup_add_count n_def)
    next
      case False
      with l show ?thesis
        by (simp add: item lookup_add_count count_of_add_count split: option.split)
    qed
    ultimately show ?thesis by blast
  qed
qed

text \<open>
  Python does not fix the order in which \<open>text_words.items()\<close> visits the table. The
  model visits it in order of insertion; any other order gives the same result.
\<close>

lemma add_words_order:
  assumes "distinct (map fst items)" and "mset items = mset items'"
  shows "add_words opts t items pw = add_words opts t items' pw"
proof (cases "t = 0")
  case True
  show ?thesis
  proof (cases items)
    case Nil
    with assms(2) show ?thesis by simp
  next
    case (Cons a list)
    with assms(2) have "items' \<noteq> []" by auto
    then obtain b list' where "items' = b # list'" by (cases items') auto
    with Cons True show ?thesis by (cases a; cases b) simp
  qed
next
  case False
  then have t: "0 < t" by simp
  have "mset (map fst items) = mset (map fst items')"
    using assms(2) by (metis mset_map)
  then have d': "distinct (map fst items')"
    using assms(1) by (metis mset_eq_imp_distinct_iff)
  have "set items = set items'"
    using assms(2) by (rule mset_eq_setD)
  then have m: "map_of items = map_of items'"
    using assms(1) d' by (simp add: map_of_inject_set)
  from add_words_lookup [OF t assms(1), of opts pw] obtain p1 where
    r1: "add_words opts t items pw = Inr p1" and
    l1: "\<forall>w. Mapping.lookup p1 w =
              (case map_of items w of
                 None \<Rightarrow> Mapping.lookup pw w
               | Some c \<Rightarrow>
                   if float_div c t \<le> rat_of_double (max_threshold opts)
                   then Some (count_of pw w + (if count_word_freqs opts then int c else 1))
                   else Mapping.lookup pw w)" by blast
  from add_words_lookup [OF t d', of opts pw] obtain p2 where
    r2: "add_words opts t items' pw = Inr p2" and
    l2: "\<forall>w. Mapping.lookup p2 w =
              (case map_of items' w of
                 None \<Rightarrow> Mapping.lookup pw w
               | Some c \<Rightarrow>
                   if float_div c t \<le> rat_of_double (max_threshold opts)
                   then Some (count_of pw w + (if count_word_freqs opts then int c else 1))
                   else Mapping.lookup pw w)" by blast
  have "p1 = p2"
    by (rule mapping_eqI) (simp add: l1 l2 m)
  with r1 r2 show ?thesis by simp
qed

lemma increment_pos: "w \<in> set (normalized_tokens block) \<Longrightarrow> 0 < increment opts block w"
  using count_list_0_iff [of "normalized_tokens block" w]
  by (simp add: increment_def local_count_def)

lemma parse_text_lookup:
  "\<exists>pw'. parse_text cw opts block pw = Inr pw' \<and>
     (\<forall>w. Mapping.lookup pw' w =
        (if accepted cw opts block w then Some (count_of pw w + increment opts block w)
         else Mapping.lookup pw w))"
proof -
  obtain t tw where ct: "count_tokens cw (split_ws block) (0, []) = (t, tw)"
    by (cases "count_tokens cw (split_ws block) (0, [])")
  have t: "t = length (split_ws block)"
    using count_tokens_total [of cw "split_ws block" 0 "[]"] ct by simp
  have d: "distinct (map fst tw)"
    using count_tokens_distinct [of "[]" cw "split_ws block" 0] ct by simp
  have m: "map_of tw w =
     (if w \<noteq> [] \<and> w \<notin> cw \<and> w \<in> set (normalized_tokens block)
      then Some (local_count block w) else None)" for w
    using count_tokens_map_of [OF ct, of w] by (simp add: normalized_tokens_def local_count_def)
  show ?thesis
  proof (cases "t = 0")
    case True
    with t have "split_ws block = []" by simp
    then show ?thesis
      by (simp add: parse_text_def accepted_def normalized_tokens_def)
  next
    case False
    then have "0 < t" by simp
    from add_words_lookup [OF this d, of opts pw] obtain pw' where
      r: "add_words opts t tw pw = Inr pw'" and
      l: "\<And>w. Mapping.lookup pw' w =
              (case map_of tw w of
                 None \<Rightarrow> Mapping.lookup pw w
               | Some c \<Rightarrow>
                   if float_div c t \<le> rat_of_double (max_threshold opts)
                   then Some (count_of pw w + (if count_word_freqs opts then int c else 1))
                   else Mapping.lookup pw w)" by blast
    have "parse_text cw opts block pw = Inr pw'"
      using ct r by (simp add: parse_text_def)
    moreover have "Mapping.lookup pw' w =
        (if accepted cw opts block w then Some (count_of pw w + increment opts block w)
         else Mapping.lookup pw w)" for w
      unfolding l [of w] m [of w] by (simp add: accepted_def increment_def t)
    ultimately show ?thesis by blast
  qed
qed

lemma count_of_lookup:
  "count_of pw w = (case Mapping.lookup pw w of None \<Rightarrow> 0 | Some v \<Rightarrow> v)"
  by (simp add: count_of_def lookup_default_def)


lemma parse_text_ingest1: "parse_text cw opts block pw = Inr (ingest1 cw opts block pw)"
  using parse_text_lookup [of cw opts block pw] by (auto simp: ingest1_def)

lemma lookup_ingest1:
  "Mapping.lookup (ingest1 cw opts block pw) w =
     (if accepted cw opts block w then Some (count_of pw w + increment opts block w)
      else Mapping.lookup pw w)"
  using parse_text_lookup [of cw opts block pw] by (auto simp: ingest1_def)

lemma count_of_ingest1:
  "count_of (ingest1 cw opts block pw) w =
     (if accepted cw opts block w then count_of pw w + increment opts block w else count_of pw w)"
  by (simp add: count_of_lookup [of "ingest1 cw opts block pw"] lookup_ingest1 count_of_lookup [of pw])

lemma ingest1_commute:
  "ingest1 cw opts t1 (ingest1 cw opts t2 pw) = ingest1 cw opts t2 (ingest1 cw opts t1 pw)"
  by (rule mapping_eqI) (simp add: lookup_ingest1 count_of_ingest1)

lemma ingest_fold: "ingest cw opts texts pw = Inr (fold (ingest1 cw opts) texts pw)"
  by (induction texts arbitrary: pw) (simp_all add: parse_text_ingest1)

lemma ingest_mset:
  assumes "mset texts = mset texts'"
  shows "ingest cw opts texts pw = ingest cw opts texts' pw"
proof -
  have "fold (ingest1 cw opts) texts = fold (ingest1 cw opts) texts'"
    by (rule fold_multiset_equiv [OF _ assms]) (simp add: fun_eq_iff ingest1_commute)
  then show ?thesis by (simp add: ingest_fold)
qed

lemma fold_ingest1_mono:
  "count_of pw w \<le> count_of (fold (ingest1 cw opts) texts pw) w"
proof (induction texts arbitrary: pw)
  case Nil
  then show ?case by simp
next
  case (Cons t ts)
  have "count_of pw w \<le> count_of (ingest1 cw opts t pw) w"
    using increment_pos [of w t opts] by (auto simp add: count_of_ingest1 accepted_def)
  also have "\<dots> \<le> count_of (fold (ingest1 cw opts) ts (ingest1 cw opts t pw)) w"
    by (rule Cons.IH)
  finally show ?case by simp
qed

lemma splitw_chars:
  "tok \<in> set (splitw cur s) \<Longrightarrow> set tok \<subseteq> set cur \<union> {c \<in> set s. \<not> isspace c}"
proof (induction s arbitrary: cur)
  case Nil
  then show ?case by (simp split: if_splits)
next
  case (Cons c cs)
  then show ?case by (fastforce split: if_splits)
qed

lemma split_ws_chars: "tok \<in> set (split_ws s) \<Longrightarrow> c \<in> set tok \<Longrightarrow> c \<in> set s \<and> \<not> isspace c"
  using splitw_chars [of tok "[]" s] by (auto simp: split_ws_def)

lemma strip_all: "set s \<subseteq> set chars \<Longrightarrow> strip chars s = []"
proof -
  assume "set s \<subseteq> set chars"
  then have d: "dropWhile (\<lambda>c. c \<in> set chars) s = []"
    by auto
  show ?thesis unfolding strip_def d by simp
qed

lemma count_list_replicate_same: "count_list (replicate n x) x = n"
  by (induction n) simp_all

lemma count_tokens_none:
  "\<forall>tok\<in>set toks. normalize_word tok = [] \<or> normalize_word tok \<in> cw \<Longrightarrow>
   snd (count_tokens cw toks (t0, tw0)) = tw0"
  by (induction toks arbitrary: t0 tw0) (auto simp: Let_def)

lemma parse_text_none:
  assumes "\<forall>tok\<in>set (split_ws block). normalize_word tok = [] \<or> normalize_word tok \<in> cw"
  shows "parse_text cw opts block pw = Inr pw"
proof -
  have "snd (count_tokens cw (split_ws block) (0, [])) = []"
    using count_tokens_none [OF assms] by simp
  then show ?thesis
    by (auto simp: parse_text_def split: prod.split)
qed

lemma accepted_mset:
  assumes "mset (split_ws b1) = mset (split_ws b2)"
  shows "accepted cw opts b1 = accepted cw opts b2" and "increment opts b1 = increment opts b2"
proof -
  have len: "length (split_ws b1) = length (split_ws b2)"
    using assms by (rule mset_eq_length)
  have m: "mset (normalized_tokens b1) = mset (normalized_tokens b2)"
    using assms by (simp add: normalized_tokens_def)
  then have s: "set (normalized_tokens b1) = set (normalized_tokens b2)"
    by (rule mset_eq_setD)
  have c: "local_count b1 w = local_count b2 w" for w
    using m by (simp add: local_count_def flip: count_mset)
  show "accepted cw opts b1 = accepted cw opts b2"
    by (simp add: fun_eq_iff accepted_def len s c)
  show "increment opts b1 = increment opts b2"
    by (simp add: fun_eq_iff increment_def c)
qed

lemma parse_text_mset:
  assumes "mset (split_ws b1) = mset (split_ws b2)"
  shows "parse_text cw opts b1 pw = parse_text cw opts b2 pw"
proof -
  have "ingest1 cw opts b1 pw = ingest1 cw opts b2 pw"
    by (rule mapping_eqI) (simp add: lookup_ingest1 accepted_mset [OF assms])
  then show ?thesis by (simp add: parse_text_ingest1)
qed

section \<open>What process\_subreddit returns\<close>

lemma process_submission_fails:
  "comments s = Inl status \<Longrightarrow> process_submission cw opts s True pw = Inl (HTTPError status)"
  by (simp add: process_submission_def)

lemma process_submission_ok:
  "comments s = Inr bodies \<Longrightarrow>
   process_submission cw opts s True pw = Inr (fold (ingest1 cw opts) (submission_texts s) pw)"
  by (simp add: process_submission_def submission_texts_def ingest_fold parse_text_ingest1)

lemma process_subreddit_from_result:
  "\<exists>err'. process_subreddit_from cw opts i subs (pw, err) =
       Inr (fold (ingest1 cw opts)
              (concat (map submission_texts (filter (\<lambda>s. \<not> fetch_fails s) subs))) pw, err') \<and>
     set err \<subseteq> set err' \<and>
     (\<forall>s status. s \<in> set subs \<and> comments s = Inl status \<longrightarrow>
        skip_message (url s) status \<in> set err')"
proof (induction subs arbitrary: i pw err)
  case Nil
  then show ?case by simp
next
  case (Cons s subs)
  define err2 where
    "err2 = (if i mod 100 = 99 then (err @ [''.'']) @ [[CHR 0x0A]] else err @ [''.''])"
  have sub: "set err \<subseteq> set err2" by (auto simp: err2_def)
  show ?case
  proof (cases "comments s")
    case (Inl status)
    from Cons.IH [of "i + 1" pw "err2 @ [skip_message (url s) status]"] obtain err' where
      r: "process_subreddit_from cw opts (i + 1) subs (pw, err2 @ [skip_message (url s) status]) =
          Inr (fold (ingest1 cw opts)
              (concat (map submission_texts (filter (\<lambda>s. \<not> fetch_fails s) subs))) pw, err')"
      and e: "set (err2 @ [skip_message (url s) status]) \<subseteq> set err'"
      and m: "\<forall>s status. s \<in> set subs \<and> comments s = Inl status \<longrightarrow>
        skip_message (url s) status \<in> set err'" by blast
    have "process_subreddit_from cw opts i (s # subs) (pw, err) =
       Inr (fold (ingest1 cw opts)
              (concat (map submission_texts (filter (\<lambda>s. \<not> fetch_fails s) (s # subs)))) pw, err')"
      using r Inl by (simp add: process_submission_fails fetch_fails_def err2_def Let_def)
    moreover have "set err \<subseteq> set err'" using sub e by auto
    moreover have "\<forall>x status. x \<in> set (s # subs) \<and> comments x = Inl status \<longrightarrow>
        skip_message (url x) status \<in> set err'"
      using m e Inl by auto
    ultimately show ?thesis by blast
  next
    case (Inr bodies)
    from Cons.IH [of "i + 1" "fold (ingest1 cw opts) (submission_texts s) pw" err2] obtain err' where
      r: "process_subreddit_from cw opts (i + 1) subs
            (fold (ingest1 cw opts) (submission_texts s) pw, err2) =
          Inr (fold (ingest1 cw opts)
              (concat (map submission_texts (filter (\<lambda>s. \<not> fetch_fails s) subs)))
              (fold (ingest1 cw opts) (submission_texts s) pw), err')"
      and e: "set err2 \<subseteq> set err'"
      and m: "\<forall>s status. s \<in> set subs \<and> comments s = Inl status \<longrightarrow>
        skip_message (url s) status \<in> set err'" by blast
    have "process_subreddit_from cw opts i (s # subs) (pw, err) =
       Inr (fold (ingest1 cw opts)
              (concat (map submission_texts (filter (\<lambda>s. \<not> fetch_fails s) (s # subs)))) pw, err')"
      using r Inr by (simp add: process_submission_ok fetch_fails_def err2_def Let_def)
    moreover have "set err \<subseteq> set err'" using sub e by auto
    moreover have "\<forall>x status. x \<in> set (s # subs) \<and> comments x = Inl status \<longrightarrow>
        skip_message (url x) status \<in> set err'"
      using m Inr by auto
    ultimately show ?thesis by blast
  qed
qed

text \<open>
  \<open>str_nat\<close> gives the decimal digits of its argument, and the diagnostic contains the
  URL and the digits of the status code.
\<close>

lemma digit_char:
  assumes "d < 10"
  shows "(of_char (char_of (48 + d :: nat)) :: nat) = 48 + d" and "isdigit (char_of (48 + d))"
proof -
  show c: "(of_char (char_of (48 + d :: nat)) :: nat) = 48 + d"
    using assms by simp
  show "isdigit (char_of (48 + d))"
    unfolding isdigit_def Let_def c using assms by simp
qed

lemma decimal_value_snoc:
  "decimal_value (ds @ [c]) = 10 * decimal_value ds + (of_char c - 48)"
  by (simp add: decimal_value_def)

lemma str_nat_decimal:
  "str_nat n \<noteq> [] \<and> list_all isdigit (str_nat n) \<and> decimal_value (str_nat n) = n"
proof (induction n rule: str_nat.induct)
  case (1 n)
  show ?case
  proof (cases "n < 10")
    case True
    then show ?thesis
      using digit_char [of n] by (simp add: str_nat.simps [of n] decimal_value_def)
  next
    case False
    have m: "n mod 10 < 10" by simp
    from False "1.IH" have ih: "str_nat (n div 10) \<noteq> []" "list_all isdigit (str_nat (n div 10))"
      "decimal_value (str_nat (n div 10)) = n div 10" by simp_all
    have s: "str_nat n = str_nat (n div 10) @ [char_of (48 + n mod 10)]"
      using False by (simp add: str_nat.simps [of n])
    show ?thesis
      unfolding s using ih digit_char [OF m] by (simp add: decimal_value_snoc)
  qed
qed

lemma skip_message_url: "sublist u (skip_message u n)"
proof -
  have "skip_message u n =
      ([CHR 0x0A] @ ''Skipping submission '') @ u @
      ('' due to HTTP status '' @ str_nat n @ '' error. Continuing...'' @ [CHR 0x0A])"
    by (simp add: skip_message_def)
  then show ?thesis
    unfolding sublist_def by blast
qed

lemma skip_message_status: "sublist (str_nat n) (skip_message u n)"
proof -
  have "skip_message u n =
      ([CHR 0x0A] @ ''Skipping submission '' @ u @ '' due to HTTP status '') @ str_nat n @
      ('' error. Continuing...'' @ [CHR 0x0A])"
    by (simp add: skip_message_def)
  then show ?thesis
    unfolding sublist_def by blast
qed

section \<open>The tokens of the output\<close>

lemma substring_in_sublist: "substring_in ew word = sublist ew word"
  by (induction word) (simp_all add: sublist_Cons_right)

lemma excluded_loop_True:
  "excluded_loop ews word True = (\<not> (\<exists>ew\<in>set ews. sublist ew word))"
  by (induction ews) (simp_all add: substring_in_sublist)

lemma render_word_nonempty:
  "(render_word pw w \<noteq> []) =
     (2 < count_of pw w \<and> \<not> (\<exists>ew\<in>set EXCLUDED_WORDS. sublist ew w) \<and> \<not> int_parses w)"
  by (simp add: render_word_def Let_def excluded_loop_True)

lemma splitw_nonspace:
  "\<forall>c\<in>set u. \<not> isspace c \<Longrightarrow> splitw cur (u @ rest) = splitw (cur @ u) rest"
  by (induction u arbitrary: cur) simp_all

lemma isspace_space: "isspace (CHR 0x20)"
  by (simp add: isspace_def whitespace_def)

lemma splitw_word_space:
  assumes "\<forall>c\<in>set k. \<not> isspace c"
  shows "splitw [] ((k @ '' '') @ rest) = (if k = [] then [] else [k]) @ splitw [] rest"
  using splitw_nonspace [OF assms, of "[]" "'' '' @ rest"] isspace_space by simp

lemma splitw_copies:
  assumes "\<forall>c\<in>set k. \<not> isspace c"
  shows "splitw [] (concat (replicate n (k @ '' '')) @ rest) =
           (if k = [] then [] else replicate n k) @ splitw [] rest"
proof (induction n)
  case 0
  then show ?case by simp
next
  case (Suc n)
  have "splitw [] (concat (replicate (Suc n) (k @ '' '')) @ rest) =
          splitw [] ((k @ '' '') @ (concat (replicate n (k @ '' '')) @ rest))"
    by simp
  also have "\<dots> = (if k = [] then [] else [k]) @
                     splitw [] (concat (replicate n (k @ '' '')) @ rest)"
    by (rule splitw_word_space [OF assms])
  finally show ?case using Suc by simp
qed

lemma strip_copies:
  assumes "\<forall>c\<in>set k. \<not> isspace c" and "k \<noteq> []" and "0 < n"
  shows "strip '' '' (concat (replicate n (k @ '' ''))) @ '' '' = concat (replicate n (k @ '' ''))"
proof -
  obtain m where n: "n = Suc m" using assms(3) by (cases n) auto
  define Y where "Y = concat (replicate m (k @ '' ''))"
  have "replicate (Suc m) (k @ '' '') = replicate m (k @ '' '') @ [k @ '' '']"
    by (simp add: replicate_append_same)
  then have X: "concat (replicate n (k @ '' '')) = Y @ k @ '' ''"
    unfolding n Y_def by (simp del: replicate_Suc)
  have nsp: "\<And>c. c \<in> set k \<Longrightarrow> c \<noteq> CHR 0x20"
    using assms(1) isspace_space by auto
  have hdk: "hd k \<noteq> CHR 0x20" using nsp assms(2) by (cases k) auto
  have lastk: "last k \<noteq> CHR 0x20" using nsp assms(2) last_in_set by blast
  have front: "dropWhile (\<lambda>c. c \<in> set '' '') (Y @ k @ '' '') = Y @ k @ '' ''"
  proof (cases m)
    case 0
    then show ?thesis using hdk assms(2) by (cases k) (auto simp: Y_def)
  next
    case (Suc j)
    then show ?thesis using hdk assms(2) by (cases k) (auto simp: Y_def)
  qed
  have rear: "dropWhile (\<lambda>c. c \<in> set '' '') (rev (Y @ k @ '' '')) = rev k @ rev Y"
    using lastk assms(2) by (cases "rev k") (auto simp: hd_rev)
  show ?thesis
    unfolding X strip_def front rear by simp
qed

lemma strip_spaces_only: "strip '' '' (replicate n (CHR 0x20)) = []"
  by (rule strip_all) auto

lemma splitw_render_word:
  assumes "\<forall>c\<in>set k. \<not> isspace c"
  shows "\<exists>toks. splitw [] (render_word pw k @ rest) = toks @ splitw [] rest \<and>
           set toks \<subseteq> {k} \<and> (render_word pw k = [] \<longrightarrow> toks = [])"
proof (cases "render_word pw k = []")
  case True
  then show ?thesis by simp
next
  case False
  then have c: "2 < count_of pw k"
    by (simp add: render_word_nonempty)
  define n where "n = nat (count_of pw k)"
  have n: "0 < n" using c by (simp add: n_def)
  have rw: "render_word pw k = strip '' '' (concat (replicate n (k @ '' ''))) @ '' ''"
    using False by (simp add: render_word_def Let_def n_def split: if_splits)
  show ?thesis
  proof (cases "k = []")
    case True
    have "render_word pw k = strip '' '' (replicate n (CHR 0x20)) @ '' ''"
      using rw True by simp
    then have "render_word pw k = '' ''"
      by (simp add: strip_spaces_only)
    then have "splitw [] (render_word pw k @ rest) = [] @ splitw [] rest"
      using isspace_space by simp
    then show ?thesis using False by (metis empty_set empty_subsetI)
  next
    case kne: False
    have "render_word pw k = concat (replicate n (k @ '' ''))"
      unfolding rw by (rule strip_copies [OF assms kne n])
    then have "splitw [] (render_word pw k @ rest) = replicate n k @ splitw [] rest"
      using splitw_copies [OF assms, of n rest] kne by simp
    moreover have "set (replicate n k) \<subseteq> {k}" by auto
    ultimately show ?thesis using False by blast
  qed
qed

lemma splitw_render_words:
  assumes "\<forall>k\<in>set ks. \<forall>c\<in>set k. \<not> isspace c"
  shows "set (splitw [] (concat (map (render_word pw) ks))) \<subseteq> {k \<in> set ks. render_word pw k \<noteq> []}"
  using assms
proof (induction ks)
  case Nil
  then show ?case by simp
next
  case (Cons k ks)
  then have k: "\<forall>c\<in>set k. \<not> isspace c" and ks: "\<forall>k\<in>set ks. \<forall>c\<in>set k. \<not> isspace c"
    by auto
  from splitw_render_word [OF k, of pw "concat (map (render_word pw) ks)"] obtain toks where
    t: "splitw [] (render_word pw k @ concat (map (render_word pw) ks)) =
          toks @ splitw [] (concat (map (render_word pw) ks))"
    and s: "set toks \<subseteq> {k}" and e: "render_word pw k = [] \<longrightarrow> toks = []" by blast
  have "set toks \<subseteq> {x \<in> set (k # ks). render_word pw x \<noteq> []}"
    using s e by auto
  moreover have "set (splitw [] (concat (map (render_word pw) ks))) \<subseteq>
      {x \<in> set (k # ks). render_word pw x \<noteq> []}"
    using Cons.IH [OF ks] by auto
  ultimately show ?case using t by simp
qed

lemma render_tokens:
  assumes "\<forall>k\<in>Mapping.keys pw. \<forall>c\<in>set k. \<not> isspace c"
  shows "set (split_ws (render pw)) \<subseteq> {k \<in> Mapping.keys pw. render_word pw k \<noteq> []}"
proof (cases "finite (Mapping.keys pw)")
  case True
  then have "set (Mapping.ordered_keys pw) = Mapping.keys pw" by simp
  with splitw_render_words [of "Mapping.ordered_keys pw" pw] assms show ?thesis
    by (auto simp: render_def split_ws_def)
next
  case False
  then show ?thesis by (simp add: render_def split_ws_def)
qed

lemma lower_char_nonspace: "\<not> isspace c \<Longrightarrow> \<not> isspace (lower_char c)"
proof -
  have up: "\<not> isspace (char_of (n + 32))" if "65 \<le> n" and "n \<le> 90" for n :: nat
  proof
    assume "isspace (char_of (n + 32))"
    then have "(of_char (char_of (n + 32)) :: nat) \<in> of_char ` set whitespace"
      unfolding isspace_def by (rule imageI)
    then have "(n + 32) mod 256 \<in> {9, 10, 11, 12, 13, 32 :: nat}"
      by (simp add: whitespace_def)
    with that show False by auto
  qed
  assume "\<not> isspace c"
  then show ?thesis using up by (simp add: lower_char_def Let_def)
qed

lemma normalize_word_nonspace:
  assumes "tok \<in> set (split_ws block)" and "c \<in> set (normalize_word tok)"
  shows "\<not> isspace c"
proof -
  from assms(2) obtain c0 where c0: "c0 \<in> set (strip PUNCTUATION tok)" and c: "c = lower_char c0"
    by (auto simp: normalize_word_def lower_def)
  from c0 have "c0 \<in> set (dropWhile (\<lambda>c. c \<in> set PUNCTUATION)
                        (rev (dropWhile (\<lambda>c. c \<in> set PUNCTUATION) tok)))"
    by (simp add: strip_def)
  then have "c0 \<in> set (rev (dropWhile (\<lambda>c. c \<in> set PUNCTUATION) tok))"
    by (rule set_dropWhileD)
  then have "c0 \<in> set (dropWhile (\<lambda>c. c \<in> set PUNCTUATION) tok)"
    by simp
  then have "c0 \<in> set tok"
    by (rule set_dropWhileD)
  with split_ws_chars [OF assms(1)] have "\<not> isspace c0" by blast
  then show ?thesis unfolding c by (rule lower_char_nonspace)
qed

lemma keys_ingest1:
  "Mapping.keys (ingest1 cw opts block pw) = Mapping.keys pw \<union> {w. accepted cw opts block w}"
  by (auto simp: keys_dom_lookup lookup_ingest1 split: if_splits)

lemma keys_fold_ingest1:
  "\<forall>k\<in>Mapping.keys pw. \<forall>c\<in>set k. \<not> isspace c \<Longrightarrow>
   \<forall>k\<in>Mapping.keys (fold (ingest1 cw opts) texts pw). \<forall>c\<in>set k. \<not> isspace c"
proof (induction texts arbitrary: pw)
  case Nil
  then show ?case by simp
next
  case (Cons t ts)
  have "\<forall>k\<in>Mapping.keys (ingest1 cw opts t pw). \<forall>c\<in>set k. \<not> isspace c"
  proof (intro ballI)
    fix k c assume k: "k \<in> Mapping.keys (ingest1 cw opts t pw)" and c: "c \<in> set k"
    show "\<not> isspace c"
    proof (cases "k \<in> Mapping.keys pw")
      case True
      with Cons.prems c show ?thesis by blast
    next
      case False
      with k have "accepted cw opts t k" by (simp add: keys_ingest1)
      then obtain tok where "tok \<in> set (split_ws t)" and "k = normalize_word tok"
        by (auto simp: accepted_def normalized_tokens_def)
      with c show ?thesis using normalize_word_nonspace by blast
    qed
  qed
  from Cons.IH [OF this] show ?case by simp
qed

text \<open>
  The words held by the accumulator at the end of a run, which starts from the empty
  accumulator, contain no whitespace.
\<close>

lemma final_accumulator_keys:
  assumes "ingest cw opts texts Mapping.empty = Inr pw"
  shows "\<forall>k\<in>Mapping.keys pw. \<forall>c\<in>set k. \<not> isspace c"
proof -
  have "pw = fold (ingest1 cw opts) texts Mapping.empty"
    using assms by (simp add: ingest_fold)
  then show ?thesis
    using keys_fold_ingest1 [of Mapping.empty cw opts texts] by simp
qed

section \<open>The claims\<close>

text \<open>
  C1. The scenario: common words "the" and "a", the blocks "test test the a" and "test"
  ingested in that order, threshold 0.5, counting every occurrence. The claim gives the
  final count of "test" as 3. The first block does contribute 2 (ratio 2/4, on the
  boundary), but in the second block "test" is the only token, its ratio is 1/1, above the
  threshold, and the block contributes nothing: the final count is not 3.
\<close>

theorem C1_counterexample:
  "map_sum id (\<lambda>pw. count_of pw ''test'')
     (ingest {''the'', ''a''} (default_options\<lparr>max_threshold := to_double (1 / 2)\<rparr>)
        [''test test the a'', ''test''] Mapping.empty) \<noteq> Inr 3"
  by code_simp

text \<open>
  C1, as amended: in that scenario the count of "test" is 2 after the first block and
  still 2 after the second, and no ingestion raises.
\<close>

theorem C1_final_count_is_2:
  "map_sum id (\<lambda>pw. count_of pw ''test'')
     (ingest {''the'', ''a''} (default_options\<lparr>max_threshold := to_double (1 / 2)\<rparr>)
        [''test test the a''] Mapping.empty) = Inr 2 \<and>
   map_sum id (\<lambda>pw. count_of pw ''test'')
     (ingest {''the'', ''a''} (default_options\<lparr>max_threshold := to_double (1 / 2)\<rparr>)
        [''test test the a'', ''test''] Mapping.empty) = Inr 2"
  by code_simp

text \<open>
  C2. The claim: the denominator \<open>total\<close> is the number of tokens whose normalised form
  is not empty. In the source \<open>total += 1\<close> stands before the test \<open>if word\<close>, so every
  token counts: for the block "test -" the loop ends with \<open>total\<close> equal to 2, while only
  one token has a non-empty normalised form. With the threshold 0.5 the word "test" is
  then accepted, at ratio 1/2; with a denominator of 1 it would have been rejected.
\<close>

theorem C2_counterexample:
  "fst (count_tokens {} (split_ws ''test -'') (0, [])) = 2 \<and>
   length (filter (\<lambda>tok. normalize_word tok \<noteq> []) (split_ws ''test -'')) = 1 \<and>
   fst (count_tokens {} (split_ws ''test -'') (0, [])) \<noteq>
     length (filter (\<lambda>tok. normalize_word tok \<noteq> []) (split_ws ''test -'')) \<and>
   map_sum id (\<lambda>pw. count_of pw ''test'')
     (parse_text {} (default_options\<lparr>max_threshold := to_double (1 / 2)\<rparr>) ''test -'' Mapping.empty) =
     Inr 1"
  by code_simp

text \<open>
  C2, as amended: for every block and every set of common words, \<open>total\<close> is the number
  of whitespace-separated tokens of the block, whatever they normalise to and whether or
  not they are common words.
\<close>

theorem C2_total_counts_every_token:
  "fst (count_tokens cw (split_ws block) (0, [])) = length (split_ws block)"
  using count_tokens_total [of cw "split_ws block" 0 "[]"] by simp

text \<open>
  C3. The claim: a non-common word of a block is left out exactly when \<open>c / total\<close> is
  above the threshold. The source computes \<open>count / total\<close> in floats (\<open>total\<close> is
  "intentionally a float"), so what it compares with the threshold is the nearest double
  of the ratio. With the threshold 0.3333333333333333, the double just below one third,
  and the block "x y z", the ratio 1/3 of "x" is above the threshold; its float quotient is
  that very double, the test \<open><=\<close> succeeds and the entry of "x" goes from 0 to 1.
\<close>

theorem C3_counterexample:
  "rat_of_double (to_double (6004799503160661 / 18014398509481984)) <
     of_nat (local_count ''x y z'' ''x'') / of_nat (length (split_ws ''x y z'')) \<and>
   float_div (local_count ''x y z'' ''x'') (length (split_ws ''x y z'')) =
     rat_of_double (to_double (6004799503160661 / 18014398509481984)) \<and>
   count_of Mapping.empty ''x'' = 0 \<and>
   map_sum id (\<lambda>pw. count_of pw ''x'')
     (parse_text {}
        (default_options\<lparr>max_threshold := to_double (6004799503160661 / 18014398509481984)\<rparr>)
        ''x y z'' Mapping.empty) = Inr 1"
  by code_simp

text \<open>
  C3, as amended: for every block and every non-common normalised word \<open>w\<close> of it, with
  local count \<open>c\<close> out of \<open>total\<close> tokens, the call returns, and the entry of \<open>w\<close> is
  left as it was exactly when the float quotient \<open>c / total\<close> (the nearest double of the
  ratio) is above the threshold. When the float quotient equals the threshold the word is
  accepted and its entry grows by a positive increment. Whenever the exact ratio is at
  most the threshold the word is accepted.
\<close>

theorem C3_float_threshold_is_inclusive:
  assumes "w \<in> set (normalized_tokens block)" and "w \<noteq> []" and "w \<notin> cw"
  shows "\<exists>pw'. parse_text cw opts block pw = Inr pw' \<and>
           ((Mapping.lookup pw' w = Mapping.lookup pw w) =
              (rat_of_double (max_threshold opts) <
                 float_div (local_count block w) (length (split_ws block)))) \<and>
           (float_div (local_count block w) (length (split_ws block)) =
              rat_of_double (max_threshold opts)
              \<longrightarrow> count_of pw' w = count_of pw w + increment opts block w \<and>
                  0 < increment opts block w) \<and>
           (of_nat (local_count block w) / of_nat (length (split_ws block)) \<le>
              rat_of_double (max_threshold opts)
              \<longrightarrow> count_of pw' w = count_of pw w + increment opts block w)"
proof -
  from parse_text_lookup [of cw opts block pw] obtain pw' where
    r: "parse_text cw opts block pw = Inr pw'" and
    l: "\<And>v. Mapping.lookup pw' v =
        (if accepted cw opts block v then Some (count_of pw v + increment opts block v)
         else Mapping.lookup pw v)" by blast
  have pos: "0 < increment opts block w"
    using assms(1) by (rule increment_pos)
  have a: "accepted cw opts block w =
      (float_div (local_count block w) (length (split_ws block)) \<le>
         rat_of_double (max_threshold opts))"
    using assms by (simp add: accepted_def)
  have changed: "Some (count_of pw w + increment opts block w) \<noteq> Mapping.lookup pw w"
    using pos by (simp add: count_of_lookup split: option.split)
  have "(Mapping.lookup pw' w = Mapping.lookup pw w) =
          (rat_of_double (max_threshold opts) <
             float_div (local_count block w) (length (split_ws block)))"
    using changed by (auto simp: l a)
  moreover have "count_of pw' w = count_of pw w + increment opts block w"
    if "float_div (local_count block w) (length (split_ws block)) =
          rat_of_double (max_threshold opts)"
    using that by (simp add: count_of_lookup [of pw'] l a)
  moreover have "count_of pw' w = count_of pw w + increment opts block w"
    if "of_nat (local_count block w) / of_nat (length (split_ws block)) \<le>
          rat_of_double (max_threshold opts)"
  proof -
    from that have "accepted cw opts block w"
      unfolding a float_div_def by (rule double_le)
    then show ?thesis by (simp add: count_of_lookup [of pw'] l)
  qed
  ultimately show ?thesis using r pos by blast
qed

theorem C3_witness:
  "\<exists>pw'. parse_text {''the'', ''a''} (default_options\<lparr>max_threshold := to_double (1 / 2)\<rparr>)
            ''test test the a'' Mapping.empty = Inr pw' \<and>
         Mapping.lookup pw' ''test'' \<noteq> Mapping.lookup Mapping.empty ''test'' \<and>
         count_of pw' ''test'' = 2"
proof -
  have h1: "''test'' \<in> set (normalized_tokens ''test test the a'')" by code_simp
  have h2: "''test'' \<noteq> []" by simp
  have h3: "''test'' \<notin> {''the'', ''a''}" by simp
  have ratio: "float_div (local_count ''test test the a'' ''test'')
       (length (split_ws ''test test the a''))
     = rat_of_double (max_threshold (default_options\<lparr>max_threshold := to_double (1 / 2)\<rparr>))"
    by code_simp
  have inc: "increment (default_options\<lparr>max_threshold := to_double (1 / 2)\<rparr>)
      ''test test the a'' ''test'' = 2"
    by code_simp
  show ?thesis
    using C3_float_threshold_is_inclusive [OF h1 h2 h3,
        of "default_options\<lparr>max_threshold := to_double (1 / 2)\<rparr>" Mapping.empty]
    unfolding ratio inc
    by (auto simp: count_of_def lookup_default_empty)
qed

text \<open>
  C4. Whatever the submissions and whichever of them fail, \<open>process_subreddit\<close> returns.
  When the processing of a submission of the listing fails with an HTTP error, the
  diagnostic is among the strings written to the diagnostic stream; the diagnostic
  contains the URL of the submission and the status code, written as the decimal digits
  that denote it; and the final accumulator is the one obtained by ingesting, in order,
  the comment bodies, the title and (for a self post) the self-text of every submission
  that did not fail: the failing ones contribute nothing and the ones after them are
  still processed.
\<close>

theorem C4_failed_submission_is_skipped:
  assumes "s \<in> set subs" and "comments s = Inl status"
  shows "\<exists>pw' err'. process_subreddit cw opts subs (pw, err) = Inr (pw', err') \<and>
           skip_message (url s) status \<in> set err' \<and>
           sublist (url s) (skip_message (url s) status) \<and>
           sublist (str_nat status) (skip_message (url s) status) \<and>
           str_nat status \<noteq> [] \<and> list_all isdigit (str_nat status) \<and>
           decimal_value (str_nat status) = status \<and>
           ingest cw opts
             (concat (map submission_texts (filter (\<lambda>x. \<not> fetch_fails x) subs))) pw = Inr pw'"
  using process_subreddit_from_result [of cw opts 0 subs pw err] assms
    skip_message_url [of "url s" status] skip_message_status [of status "url s"]
    str_nat_decimal [of status]
  unfolding process_subreddit_def ingest_fold by blast

theorem C4_witness:
  "\<exists>pw' err'.
     process_subreddit {''the'', ''a''} default_options
       [\<lparr>url = ''u1'', title = ''alpha beta gamma delta'', is_self = False, selftext = [],
          comments = Inr [''one two three'']\<rparr>,
        \<lparr>url = ''u2'', title = ''epsilon zeta eta theta'', is_self = False, selftext = [],
          comments = Inl 503\<rparr>,
        \<lparr>url = ''u3'', title = ''iota kappa lambda mu'', is_self = True,
          selftext = ''nu xi omicron'', comments = Inr []\<rparr>]
       (Mapping.empty, []) = Inr (pw', err') \<and>
     skip_message ''u2'' 503 \<in> set err' \<and>
     [CHR 0x0A] @ ''Skipping submission u2 due to HTTP status 503 error. Continuing...'' @
       [CHR 0x0A] \<in> set err' \<and>
     sublist ''u2'' (skip_message ''u2'' 503) \<and>
     sublist (str_nat 503) (skip_message ''u2'' 503) \<and>
     str_nat 503 = ''503'' \<and> decimal_value (str_nat 503) = 503 \<and>
     ingest {''the'', ''a''} default_options
       [''one two three'', ''alpha beta gamma delta'', ''iota kappa lambda mu'', ''nu xi omicron'']
       Mapping.empty = Inr pw'"
proof -
  let ?s1 = "\<lparr>url = ''u1'', title = ''alpha beta gamma delta'', is_self = False, selftext = [],
          comments = Inr [''one two three'']\<rparr>"
  let ?s2 = "\<lparr>url = ''u2'', title = ''epsilon zeta eta theta'', is_self = False, selftext = [],
          comments = Inl 503\<rparr>"
  let ?s3 = "\<lparr>url = ''u3'', title = ''iota kappa lambda mu'', is_self = True,
          selftext = ''nu xi omicron'', comments = Inr []\<rparr>"
  have m: "[CHR 0x0A] @ ''Skipping submission u2 due to HTTP status 503 error. Continuing...'' @
      [CHR 0x0A] = skip_message ''u2'' 503"
    by code_simp
  have d: "str_nat 503 = ''503''"
    by code_simp
  have h1: "?s2 \<in> set [?s1, ?s2, ?s3]" by simp
  have h2: "comments ?s2 = Inl 503" by simp
  have u: "url ?s2 = ''u2''" by simp
  have texts: "concat (map submission_texts (filter (\<lambda>x. \<not> fetch_fails x) [?s1, ?s2, ?s3])) =
      [''one two three'', ''alpha beta gamma delta'', ''iota kappa lambda mu'', ''nu xi omicron'']"
    by (simp add: submission_texts_def fetch_fails_def)
  from C4_failed_submission_is_skipped [OF h1 h2, of "{''the'', ''a''}" default_options
      Mapping.empty "[]"]
  show ?thesis
    unfolding u texts m using d by blast
qed

text \<open>
  C5. The output is the concatenation, over the words of the accumulator in sorted order,
  of the text the loop body appends for each. For an accumulator whose words contain no
  whitespace (as every accumulator built by \<open>parse_text\<close> is): the loop body appends
  text for a word exactly when its count is above 2, no phrase of \<open>EXCLUDED_WORDS\<close>
  occurs in it as a substring and \<open>int(word)\<close> fails; and a word that fails one of the
  three tests occurs zero times among the whitespace-separated tokens of the output.
\<close>

theorem C5_output_filter:
  assumes "\<forall>k\<in>Mapping.keys pw. \<forall>c\<in>set k. \<not> isspace c"
  shows "((render_word pw w \<noteq> []) =
            (2 < count_of pw w \<and> \<not> (\<exists>ew\<in>set EXCLUDED_WORDS. sublist ew w) \<and>
             \<not> int_parses w)) \<and>
         (\<not> (2 < count_of pw w \<and> \<not> (\<exists>ew\<in>set EXCLUDED_WORDS. sublist ew w) \<and>
             \<not> int_parses w) \<longrightarrow>
            count_list (split_ws (render pw)) w = 0)"
proof -
  have "w \<notin> set (split_ws (render pw))" if "render_word pw w = []"
    using render_tokens [OF assms] that by auto
  then show ?thesis
    using render_word_nonempty [of pw w] by (auto simp: count_list_0_iff)
qed

theorem C5_witness:
  "count_list (split_ws (render (Mapping.update ''42'' 10 (Mapping.update ''the-deleted-thing'' 5
      (Mapping.update ''low'' 2 (Mapping.update ''reddit'' 3 Mapping.empty)))))) ''42'' = 0 \<and>
   count_list (split_ws (render (Mapping.update ''42'' 10 (Mapping.update ''the-deleted-thing'' 5
      (Mapping.update ''low'' 2 (Mapping.update ''reddit'' 3 Mapping.empty))))))
      ''the-deleted-thing'' = 0 \<and>
   count_list (split_ws (render (Mapping.update ''42'' 10 (Mapping.update ''the-deleted-thing'' 5
      (Mapping.update ''low'' 2 (Mapping.update ''reddit'' 3 Mapping.empty)))))) ''low'' = 0 \<and>
   render_word (Mapping.update ''42'' 10 (Mapping.update ''the-deleted-thing'' 5
      (Mapping.update ''low'' 2 (Mapping.update ''reddit'' 3 Mapping.empty)))) ''reddit'' \<noteq> []"
proof -
  define pw :: word_counts where
    "pw = Mapping.update ''42'' 10 (Mapping.update ''the-deleted-thing'' 5
      (Mapping.update ''low'' 2 (Mapping.update ''reddit'' 3 Mapping.empty)))"
  have h: "\<forall>k\<in>Mapping.keys pw. \<forall>c\<in>set k. \<not> isspace c"
    by (simp add: pw_def isspace_def whitespace_def)
  have a: "int_parses ''42''" by code_simp
  have b: "\<exists>ew\<in>set EXCLUDED_WORDS. sublist ew ''the-deleted-thing''"
    unfolding substring_in_sublist [symmetric] by code_simp
  have c: "\<not> 2 < count_of pw ''low''"
    by (simp add: pw_def count_of_def lookup_default_update')
  have d: "2 < count_of pw ''reddit''"
    by (simp add: pw_def count_of_def lookup_default_update')
  have e: "\<not> (\<exists>ew\<in>set EXCLUDED_WORDS. sublist ew ''reddit'')"
    unfolding substring_in_sublist [symmetric] by code_simp
  have f: "\<not> int_parses ''reddit''" by code_simp
  show ?thesis
    using C5_output_filter [OF h, of "''42''"] C5_output_filter [OF h, of "''the-deleted-thing''"]
      C5_output_filter [OF h, of "''low''"] C5_output_filter [OF h, of "''reddit''"]
      a b c d e f
    unfolding pw_def by blast
qed

text \<open>
  C6. When two sequences of blocks are permutations of each other, ingesting either from
  the same accumulator returns, with the same accumulator. A block acts on the accumulator
  only through its multiset of tokens: two blocks with the same tokens in any order have
  the same effect. And what a block adds does not depend on the accumulator it is added
  to: there is a set \<open>A\<close> of words and an amount \<open>d\<close> for each, fixed by the block, the
  common words and the options, such that on every accumulator the call adds \<open>d w\<close> to
  the entry of each \<open>w\<close> in \<open>A\<close> and leaves every other entry as it was.
\<close>

theorem C6_order_independent:
  assumes "mset texts = mset texts'" and "mset (split_ws b1) = mset (split_ws b2)"
  shows "ingest cw opts texts pw = ingest cw opts texts' pw \<and>
         (\<exists>pw'. ingest cw opts texts pw = Inr pw') \<and>
         parse_text cw opts b1 pw = parse_text cw opts b2 pw \<and>
         (\<exists>A d. \<forall>p. \<exists>p'. parse_text cw opts b1 p = Inr p' \<and>
            (\<forall>w. Mapping.lookup p' w =
               (if w \<in> A then Some (count_of p w + d w) else Mapping.lookup p w)))"
proof -
  have "\<forall>p. \<exists>p'. parse_text cw opts b1 p = Inr p' \<and>
            (\<forall>w. Mapping.lookup p' w =
               (if w \<in> {w. accepted cw opts b1 w} then Some (count_of p w + increment opts b1 w)
                else Mapping.lookup p w))"
    using parse_text_lookup [of cw opts b1] by simp
  then have indep: "\<exists>A d. \<forall>p. \<exists>p'. parse_text cw opts b1 p = Inr p' \<and>
            (\<forall>w. Mapping.lookup p' w =
               (if w \<in> A then Some (count_of p w + d w) else Mapping.lookup p w))"
    by blast
  show ?thesis
    using ingest_mset [OF assms(1), of cw opts pw] ingest_fold [of cw opts texts pw]
      parse_text_mset [OF assms(2), of cw opts pw] indep
    by blast
qed

theorem C6_witness:
  "ingest {''the'', ''a''} default_options [''alpha beta gamma delta'', ''alpha one two three''] Mapping.empty =
     ingest {''the'', ''a''} default_options [''alpha one two three'', ''alpha beta gamma delta''] Mapping.empty \<and>
   parse_text {''the'', ''a''} default_options ''x y z  w'' Mapping.empty =
     parse_text {''the'', ''a''} default_options ''w z y x'' Mapping.empty"
proof -
  have h1: "mset [''alpha beta gamma delta'', ''alpha one two three''] = mset [''alpha one two three'', ''alpha beta gamma delta'']"
    by simp
  have "split_ws ''x y z  w'' = [''x'', ''y'', ''z'', ''w'']"
    and "split_ws ''w z y x'' = [''w'', ''z'', ''y'', ''x'']"
    by code_simp+
  then have h2: "mset (split_ws ''x y z  w'') = mset (split_ws ''w z y x'')"
    by simp
  show ?thesis
    using C6_order_independent [OF h1 h2, of "{''the'', ''a''}" default_options Mapping.empty]
    by blast
qed



text \<open>
  C8. For every block made only of punctuation and whitespace characters (the empty block
  included), every token normalises to the empty string, and the call returns the
  accumulator it was given: no entry is touched and no error is raised. And no call of
  \<open>parse_text\<close>, on any block, raises \<open>ZeroDivisionError\<close>.
\<close>

theorem C8_punctuation_block_is_noop:
  assumes "\<forall>c\<in>set block. c \<in> set PUNCTUATION \<or> isspace c"
  shows "(\<forall>tok\<in>set (split_ws block). normalize_word tok = []) \<and>
         parse_text cw opts block pw = Inr pw \<and>
         (\<forall>b p. parse_text cw opts b p \<noteq> Inl ZeroDivisionError)"
proof -
  have n: "normalize_word tok = []" if "tok \<in> set (split_ws block)" for tok
  proof -
    have "set tok \<subseteq> set PUNCTUATION"
      using split_ws_chars [OF that] assms by blast
    then show ?thesis by (simp add: normalize_word_def strip_all lower_def)
  qed
  then have "\<forall>tok\<in>set (split_ws block). normalize_word tok = [] \<or> normalize_word tok \<in> cw" by blast
  from parse_text_none [OF this] have "parse_text cw opts block pw = Inr pw" .
  moreover have "parse_text cw opts b p \<noteq> Inl ZeroDivisionError" for b p
    by (simp add: parse_text_ingest1)
  ultimately show ?thesis using n by blast
qed

theorem C8_witness:
  "parse_text {''the'', ''a''} default_options ''... !! --'' Mapping.empty = Inr Mapping.empty \<and>
   parse_text {''the'', ''a''} default_options [] Mapping.empty = Inr Mapping.empty"
proof -
  have h: "\<forall>c\<in>set ''... !! --''. c \<in> set PUNCTUATION \<or> isspace c" by code_simp
  have e: "\<forall>c\<in>set []. c \<in> set PUNCTUATION \<or> isspace c" by simp
  show ?thesis
    using C8_punctuation_block_is_noop [OF h, of "{''the'', ''a''}" default_options Mapping.empty]
      C8_punctuation_block_is_noop [OF e, of "{''the'', ''a''}" default_options Mapping.empty]
    by blast
qed

text \<open>
  C9. Every call of \<open>parse_text\<close> returns, and leaves each entry of the accumulator as it
  was or makes its count larger. Along a run that starts from the empty accumulator, the
  count of a word after some blocks is at least 0 and at most its count after any further
  blocks.
\<close>

theorem C9_counts_never_decrease:
  "(\<exists>pw'. parse_text cw opts block pw = Inr pw' \<and>
      (Mapping.lookup pw' w = Mapping.lookup pw w \<or> count_of pw w < count_of pw' w)) \<and>
   (\<exists>pw1 pw2. ingest cw opts texts Mapping.empty = Inr pw1 \<and>
      ingest cw opts (texts @ later) Mapping.empty = Inr pw2 \<and>
      count_of Mapping.empty w = 0 \<and> 0 \<le> count_of pw1 w \<and> count_of pw1 w \<le> count_of pw2 w)"
proof -
  have one: "Mapping.lookup (ingest1 cw opts block pw) w = Mapping.lookup pw w \<or>
      count_of pw w < count_of (ingest1 cw opts block pw) w"
    using increment_pos [of w block opts]
    by (auto simp: lookup_ingest1 count_of_ingest1 accepted_def)
  have zero: "count_of Mapping.empty w = 0"
    by (simp add: count_of_def lookup_default_empty)
  have lo: "0 \<le> count_of (fold (ingest1 cw opts) texts Mapping.empty) w"
    using fold_ingest1_mono [of Mapping.empty w cw opts texts] zero by simp
  have up: "count_of (fold (ingest1 cw opts) texts Mapping.empty) w
      \<le> count_of (fold (ingest1 cw opts) (texts @ later) Mapping.empty) w"
    using fold_ingest1_mono [of "fold (ingest1 cw opts) texts Mapping.empty" w cw opts later]
    by simp
  show ?thesis
    using one zero lo up
    by (auto simp only: parse_text_ingest1 ingest_fold)
qed

text \<open>
  C10. For every block whose tokens all normalise to one and the same word, and every
  threshold below 1, the call returns the accumulator it was given: the word's ratio is
  \<open>n / n\<close>, its float quotient is exactly 1, above the threshold, so nothing is added.
\<close>

theorem C10_single_word_block_rejected:
  assumes "\<forall>tok\<in>set (split_ws block). normalize_word tok = w" and "rat_of_double (max_threshold opts) < 1"
  shows "parse_text cw opts block pw = Inr pw"
proof -
  have na: "\<not> accepted cw opts block v" for v
  proof
    assume a: "accepted cw opts block v"
    then have v: "v \<in> set (normalized_tokens block)" by (simp add: accepted_def)
    with assms(1) have "v = w" by (auto simp: normalized_tokens_def)
    have "map normalize_word (split_ws block) = replicate (length (split_ws block)) w"
      using assms(1) by (simp add: map_replicate_const [symmetric] cong: map_cong)
    then have lc: "local_count block w = length (split_ws block)"
      by (simp add: local_count_def normalized_tokens_def count_list_replicate_same)
    from v have "0 < length (split_ws block)" by (auto simp: normalized_tokens_def)
    with lc have "float_div (local_count block w) (length (split_ws block)) = 1"
      by (simp add: float_div_def round_double_one)
    with a \<open>v = w\<close> assms(2) show False by (simp add: accepted_def)
  qed
  from parse_text_lookup [of cw opts block pw] obtain pw' where
    r: "parse_text cw opts block pw = Inr pw'" and
    l: "\<And>v. Mapping.lookup pw' v =
        (if accepted cw opts block v then Some (count_of pw v + increment opts block v)
         else Mapping.lookup pw v)" by blast
  have "pw' = pw" by (rule mapping_eqI) (simp add: l na)
  with r show ?thesis by simp
qed

theorem C10_witness:
  "parse_text {''the'', ''a''} default_options ''spam Spam, SPAM!'' Mapping.empty
     = Inr Mapping.empty \<and>
   parse_text {''the'', ''a''} default_options ''test'' Mapping.empty = Inr Mapping.empty"
proof -
  have h1: "\<forall>tok\<in>set (split_ws ''spam Spam, SPAM!''). normalize_word tok = ''spam''" by code_simp
  have h2: "\<forall>tok\<in>set (split_ws ''test''). normalize_word tok = ''test''" by code_simp
  have t: "rat_of_double (max_threshold default_options) < 1" by code_simp
  show ?thesis
    using C10_single_word_block_rejected [OF h1 t, of "{''the'', ''a''}" Mapping.empty]
      C10_single_word_block_rejected [OF h2 t, of "{''the'', ''a''}" Mapping.empty]
    by blast
qed

end
